theory Spec2Isabelle
  imports Main "HOL-Library.Word" "HOL-Library.Sublist"
begin

section \<open>Bytes and the Python primitives used by the frame codec\<close>

type_synonym byte = "8 word"
type_synonym bytes = "byte list"

text \<open>
  Python's \<open>bytes.find(sub)\<close>: the lowest index at which \<open>sub\<close> occurs, and \<open>-1\<close> when it
  does not occur.
\<close>

fun py_find :: "'a list \<Rightarrow> 'a list \<Rightarrow> int" where
  "py_find sub [] = (if sub = [] then 0 else - 1)"
| "py_find sub (x # xs) =
     (if take (length sub) (x # xs) = sub then 0
      else (let r = py_find sub xs in if r < 0 then - 1 else r + 1))"

text \<open>
  Python's slice \<open>xs[s:e]\<close> with step 1: a negative bound counts from the end, both bounds
  are clamped to the length, and an empty range gives the empty sequence (no exception).
\<close>

definition py_slice :: "'a list \<Rightarrow> int \<Rightarrow> int \<Rightarrow> 'a list" where
  "py_slice xs s e =
     (let n = int (length xs);
          s' = (if s < 0 then max (s + n) 0 else min s n);
          e' = (if e < 0 then max (e + n) 0 else min e n)
      in take (nat (e' - s')) (drop (nat s') xs))"

text \<open>Python's \<open>bytes.endswith(suffix)\<close>.\<close>

definition py_endswith :: "'a list \<Rightarrow> 'a list \<Rightarrow> bool" where
  "py_endswith xs suf =
     (length suf \<le> length xs \<and> drop (length xs - length suf) xs = suf)"

section \<open>The frame codec\<close>

definition SB :: byte where "SB = 0x0B"

definition footer :: bytes where "footer = [0x1C, 0x0D]"

text \<open>\<open>strip_mllp_framing\<close> of \<open>server_client_system.py\<close>.\<close>

definition strip_mllp_framing :: "bytes \<Rightarrow> bytes" where
  "strip_mllp_framing byte_stream =
     (let start_pos = py_find [SB] byte_stream + 1;
          end_pos = py_find footer byte_stream;
          hl7_msg = py_slice byte_stream start_pos end_pos
      in hl7_msg)"

section \<open>Sockets, exceptions and the environment\<close>

text \<open>
  The exceptions that can leave a call: \<open>OSError\<close> from \<open>connect\<close>, \<open>sendall\<close>, \<open>send\<close> and
  \<open>recv\<close>; \<open>UnicodeDecodeError\<close> from \<open>bytes.decode\<close>; \<open>HL7Error\<close> from the message
  library (parsing, building, \<open>to_mllp\<close>); \<open>InferenceError\<close> from \<open>run_inference\<close>;
  \<open>NameError\<close> from the call of a name that is bound nowhere.
\<close>

datatype exn = OSError | UnicodeDecodeError | HL7Error | InferenceError | NameError

text \<open>
  What one call of \<open>recv(4096)\<close> gives: a chunk of the peer's bytes, or an exception when the
  peer resets the connection. Once the events are used up the peer has closed its side, and
  every further \<open>recv\<close> returns the empty bytes object.
\<close>

datatype recv_event = Chunk bytes | Reset

fun recv :: "recv_event list \<Rightarrow> (exn + bytes) \<times> recv_event list" where
  "recv [] = (Inr [], [])"
| "recv (Chunk c # rest) = (Inr c, rest)"
| "recv (Reset # rest) = (Inl OSError, rest)"

record conn =
  reads :: "recv_event list"
  send_ok :: bool

datatype link = Refused | Connected conn

text \<open>
  How a call ends: it returns, an exception leaves it, it is still inside a loop when the
  fuel is used up (\<open>Spins\<close>), or it waits in a blocking call (\<open>accept\<close>, \<open>Queue.get\<close>) with
  nothing left to arrive.
\<close>

datatype 'a outcome = Returns 'a | Raises exn | Spins | Blocks

text \<open>
  The read loop of both roles:
  \<^verbatim>\<open>while not input_msg.endswith(b'\x1c\x0d'): input_msg += commun_socket.recv(4096)\<close>
  The fuel bounds the number of \<open>recv\<close> calls.
\<close>

fun read_until_footer :: "nat \<Rightarrow> recv_event list \<Rightarrow> bytes \<Rightarrow> bytes outcome" where
  "read_until_footer 0 rs buf = (if py_endswith buf footer then Returns buf else Spins)"
| "read_until_footer (Suc n) rs buf =
     (if py_endswith buf footer then Returns buf
      else (case recv rs of
              (Inl e, rs') \<Rightarrow> Raises e
            | (Inr chunk, rs') \<Rightarrow> read_until_footer n rs' (buf @ chunk)))"

type_synonym str = string

text \<open>
  The collaborators, outside the core: \<open>bytes.decode('utf-8')\<close>, the ACK builder
  \<open>create_ack_msg.create_message\<close>, \<open>to_mllp().encode('utf-8')\<close> of the message library,
  \<open>read_input_msg.extract_msg_info\<close>, \<open>model_inference.run_inference\<close> (its outcome may
  differ from call to call, so it takes the number of calls made so far), what
  \<open>create_output_msg.create_msg\<close> does for a slide before it asks for a message control ID
  (reading result files and header fields: it goes on, or an exception leaves it), and the
  downstream peer met by the n-th delivery. The result of \<open>extract_msg_info\<close> stands for an
  extraction with a non-empty slide list: \<open>msg_worker\<close> reads \<open>slide_list[0]\<close> right after
  the call, outside the \<open>try\<close>, so an empty list ends the pass as an exception of the call does.
\<close>

record env =
  decode_utf8 :: "bytes \<Rightarrow> exn + str"
  create_message :: "str \<Rightarrow> exn + str"
  to_mllp :: "str \<Rightarrow> exn + bytes"
  extract_msg_info :: "str \<Rightarrow> exn + str"
  run_inference :: "nat \<Rightarrow> str \<Rightarrow> exn + str"
  before_msg_ctrl_id :: "str \<Rightarrow> str \<Rightarrow> exn option"
  downstream :: "nat \<Rightarrow> link"

section \<open>The shared state: the work queue and what has been observed\<close>

datatype event =
    Enqueued str nat
  | AckSent bytes
  | Closed
  | Dequeued str nat
  | Slept
  | Requeued str nat
  | Dropped str
  | Handoff bytes
  | TaskDone

record state =
  queue :: "(str \<times> nat) list"
  trace :: "event list"
  calls :: nat
  deliveries :: nat

definition emit :: "event list \<Rightarrow> state \<Rightarrow> state" where
  "emit es st = st\<lparr>trace := trace st @ es\<rparr>"

text \<open>\<open>Queue.put\<close>: at the back. \<open>queue.insert(0, item)\<close>: at the front.\<close>

definition put :: "str \<times> nat \<Rightarrow> state \<Rightarrow> state" where
  "put item st = st\<lparr>queue := queue st @ [item]\<rparr>"

definition insert_front :: "str \<times> nat \<Rightarrow> state \<Rightarrow> state" where
  "insert_front item st = st\<lparr>queue := item # queue st\<rparr>"

section \<open>The inbound listener\<close>

text \<open>
  One pass through the body of the accept loop of \<open>store_msg_produce_ack\<close>, for one accepted
  connection. No exception is caught here, and the socket is closed only on the last line.
\<close>

definition handle_connection :: "env \<Rightarrow> nat \<Rightarrow> conn \<Rightarrow> state \<Rightarrow> unit outcome \<times> state" where
  "handle_connection env fuel c st =
     (case read_until_footer fuel (reads c) [] of
        Spins \<Rightarrow> (Spins, st)
      | Blocks \<Rightarrow> (Blocks, st)
      | Raises e \<Rightarrow> (Raises e, st)
      | Returns input_msg \<Rightarrow>
          (let hl7_msg = strip_mllp_framing input_msg in
           case decode_utf8 env hl7_msg of
             Inl e \<Rightarrow> (Raises e, st)
           | Inr hl7_msg_decoded \<Rightarrow>
               (case create_message env hl7_msg_decoded of
                  Inl e \<Rightarrow> (Raises e, st)
                | Inr ack_msg \<Rightarrow>
                    (let st1 = emit [Enqueued hl7_msg_decoded 0] (put (hl7_msg_decoded, 0) st) in
                     case to_mllp env ack_msg of
                       Inl e \<Rightarrow> (Raises e, st1)
                     | Inr ack_out \<Rightarrow>
                         if send_ok c
                         then (Returns (), emit [AckSent ack_out, Closed] st1)
                         else (Raises OSError, st1)))))"

text \<open>
  The accept loop, over the connections that arrive, in order. An exception or a read loop
  that does not end leaves the later connections unserved; with no connection left the
  listener waits in \<open>accept\<close>.
\<close>

fun store_msg_produce_ack :: "env \<Rightarrow> nat \<Rightarrow> conn list \<Rightarrow> state \<Rightarrow> unit outcome \<times> state" where
  "store_msg_produce_ack env fuel [] st = (Blocks, st)"
| "store_msg_produce_ack env fuel (c # cs) st =
     (case handle_connection env fuel c st of
        (Returns u, st') \<Rightarrow> store_msg_produce_ack env fuel cs st'
      | (r, st') \<Rightarrow> (r, st'))"

section \<open>The outbound sender\<close>

text \<open>
  \<open>start_client\<close>: connect, send, read the acknowledgment. The \<open>finally\<close> clause closes the
  socket and lets the exception go on to the caller.
\<close>

definition start_client :: "nat \<Rightarrow> link \<Rightarrow> bytes \<Rightarrow> bytes outcome" where
  "start_client fuel address_lis msg =
     (case address_lis of
        Refused \<Rightarrow> Raises OSError
      | Connected c \<Rightarrow>
          if \<not> send_ok c then Raises OSError
          else (case read_until_footer fuel (reads c) [] of
                  Returns ack \<Rightarrow> Returns (strip_mllp_framing ack)
                | Raises e \<Rightarrow> Raises e
                | Spins \<Rightarrow> Spins
                | Blocks \<Rightarrow> Blocks))"

section \<open>The retry worker\<close>

text \<open>
  \<open>create_msg\<close> of \<open>create_output_msg.py\<close>, called with a non-empty slide list. In the
  first pass of its loop over the slides it prepares the observation values, then
  \<open>create_msh\<close> copies four header fields and executes
  \<^verbatim>\<open>msg_output.msh.msh_10 = msgControlId(16)\<close>
  The name \<open>msgControlId\<close> is bound nowhere (the module defines \<open>generate_msg_ctrl_id\<close>), so
  the call raises \<open>NameError\<close>, and nothing in \<open>create_msh\<close> or \<open>create_msg\<close> catches it.
\<close>

definition create_msg :: "env \<Rightarrow> str \<Rightarrow> str \<Rightarrow> exn + str" where
  "create_msg env info pred =
     (case before_msg_ctrl_id env info pred of
        Some e \<Rightarrow> Inl e
      | None \<Rightarrow> Inl NameError)"

text \<open>
  Lines 188 to 195 of \<open>msg_worker\<close>: the output message is framed, handed to \<open>start_client\<close>,
  and the item is marked as done. None of it is inside a \<open>try\<close>.
\<close>

definition deliver :: "env \<Rightarrow> nat \<Rightarrow> str \<Rightarrow> state \<Rightarrow> unit outcome \<times> state" where
  "deliver env fuel oul_r21_msg st =
     (case to_mllp env oul_r21_msg of
        Inl e \<Rightarrow> (Raises e, st)
      | Inr oul_r21_out \<Rightarrow>
          (let st' = emit [Handoff oul_r21_out] (st\<lparr>deliveries := deliveries st + 1\<rparr>) in
           case start_client fuel (downstream env (deliveries st)) oul_r21_out of
             Returns ack \<Rightarrow> (Returns (), emit [TaskDone] st')
           | Raises e \<Rightarrow> (Raises e, st')
           | Spins \<Rightarrow> (Spins, st')
           | Blocks \<Rightarrow> (Blocks, st')))"

text \<open>
  \<^verbatim>\<open>for _ in tqdm(range(100)): oul_r21_msg = create_output_msg.create_msg(...)\<close>:
  the same call again and again; \<open>repeat_call n r\<close> is the first call with result \<open>r\<close>
  followed by \<open>n\<close> more.
\<close>

primrec repeat_call :: "nat \<Rightarrow> exn + 'a \<Rightarrow> exn + 'a" where
  "repeat_call 0 r = r"
| "repeat_call (Suc n) r = (case r of Inl e \<Rightarrow> Inl e | Inr v \<Rightarrow> repeat_call n r)"

text \<open>
  One pass through the body of the loop of \<open>msg_worker\<close>. Only \<open>run_inference\<close> is inside the
  \<open>try\<close>; \<open>extract_msg_info\<close>, \<open>create_msg\<close>, \<open>to_mllp\<close> and \<open>start_client\<close> are not.
\<close>

definition worker_iteration :: "env \<Rightarrow> nat \<Rightarrow> nat \<Rightarrow> state \<Rightarrow> unit outcome \<times> state" where
  "worker_iteration env fuel num_retries st =
     (case queue st of
        [] \<Rightarrow> (Blocks, st)
      | (msg, retry) # q \<Rightarrow>
          (let st1 = emit [Dequeued msg retry] (st\<lparr>queue := q\<rparr>) in
           case extract_msg_info env msg of
             Inl e \<Rightarrow> (Raises e, st1)
           | Inr info \<Rightarrow>
               (let st2 = st1\<lparr>calls := calls st1 + 1\<rparr> in
                case run_inference env (calls st1) info of
                  Inl e \<Rightarrow>
                    if retry < num_retries
                    then (Returns (), insert_front (msg, retry + 1) (emit [Slept, Requeued msg (retry + 1)] st2))
                    else (Returns (), emit [Dropped msg, TaskDone] st2)
                | Inr pred \<Rightarrow>
                    (case repeat_call 99 (create_msg env info pred) of
                       Inl e \<Rightarrow> (Raises e, st2)
                     | Inr oul_r21_msg \<Rightarrow> deliver env fuel oul_r21_msg st2))))"

text \<open>
  The loop of \<open>msg_worker\<close>, observed for as many rounds as the list is long. Each round the
  listener first puts the messages that arrived meanwhile at the back (with retry count 0),
  then the worker runs the loop body once; with an empty queue it waits in \<open>get\<close> for the
  next round. An exception that leaves the body ends the thread.
\<close>

definition arrive :: "str list \<Rightarrow> state \<Rightarrow> state" where
  "arrive ms st = st\<lparr>queue := queue st @ map (\<lambda>m. (m, 0)) ms\<rparr>"

fun msg_worker :: "env \<Rightarrow> nat \<Rightarrow> nat \<Rightarrow> str list list \<Rightarrow> state \<Rightarrow> unit outcome \<times> state" where
  "msg_worker env fuel num_retries [] st = (Returns (), st)"
| "msg_worker env fuel num_retries (ms # rounds) st =
     (case worker_iteration env fuel num_retries (arrive ms st) of
        (Returns u, st') \<Rightarrow> msg_worker env fuel num_retries rounds st'
      | (Blocks, st') \<Rightarrow> msg_worker env fuel num_retries rounds st'
      | (r, st') \<Rightarrow> (r, arrive (concat rounds) st'))"

section \<open>The threads started by main\<close>

text \<open>
  Where a thread that runs \<open>msg_worker\<close> is: waiting in \<open>input_msg_queue.get()\<close>, in
  \<open>extract_msg_info\<close>, inside the call of \<open>run_inference\<close>, in the backoff sleep before
  \<open>queue.insert(0, ...)\<close>, building the output message, or in \<open>start_client\<close>; each with the
  item it took from the queue.
\<close>

datatype wpc =
    AtGet
  | AtExtract "str \<times> nat"
  | InInference "str \<times> nat"
  | AtBackoff "str \<times> nat"
  | AtOutput "str \<times> nat"
  | AtSend "str \<times> nat"

text \<open>
  A thread runs \<open>msg_worker\<close>, \<open>cleanup_worker\<close> or (the main thread)
  \<open>store_msg_produce_ack\<close>, or it has ended by an exception.
\<close>

datatype thread = MsgWorker wpc | CleanupWorker | Listener | Ended

record sys =
  threads :: "thread list"
  shared_queue :: "(str \<times> nat) list"

text \<open>
  One step of one thread, the threads interleaving in any order and the collaborators
  free to return or to raise. The listener puts a message at the back or is left by an
  exception; the cleanup thread touches neither the queue nor the other threads; the
  worker follows the body of its loop, with \<open>n\<close> for \<open>num_retries\<close>. (When the main thread
  ends the process exits and its daemon threads with it; here they may go on, which only
  adds behaviours.)
\<close>

inductive step :: "nat \<Rightarrow> sys \<Rightarrow> sys \<Rightarrow> bool" for n :: nat where
  put_fresh:
    "i < length (threads s) \<Longrightarrow> threads s ! i = Listener \<Longrightarrow>
     step n s (s\<lparr>shared_queue := shared_queue s @ [(m, 0)]\<rparr>)"
| listener_raises:
    "i < length (threads s) \<Longrightarrow> threads s ! i = Listener \<Longrightarrow>
     step n s (s\<lparr>threads := (threads s)[i := Ended]\<rparr>)"
| sweep:
    "i < length (threads s) \<Longrightarrow> threads s ! i = CleanupWorker \<Longrightarrow> step n s s"
| get_item:
    "i < length (threads s) \<Longrightarrow> threads s ! i = MsgWorker AtGet \<Longrightarrow>
     shared_queue s = item # rest \<Longrightarrow>
     step n s (s\<lparr>threads := (threads s)[i := MsgWorker (AtExtract item)], shared_queue := rest\<rparr>)"
| extract_returns:
    "i < length (threads s) \<Longrightarrow> threads s ! i = MsgWorker (AtExtract item) \<Longrightarrow>
     step n s (s\<lparr>threads := (threads s)[i := MsgWorker (InInference item)]\<rparr>)"
| extract_raises:
    "i < length (threads s) \<Longrightarrow> threads s ! i = MsgWorker (AtExtract item) \<Longrightarrow>
     step n s (s\<lparr>threads := (threads s)[i := Ended]\<rparr>)"
| inference_returns:
    "i < length (threads s) \<Longrightarrow> threads s ! i = MsgWorker (InInference item) \<Longrightarrow>
     step n s (s\<lparr>threads := (threads s)[i := MsgWorker (AtOutput item)]\<rparr>)"
| inference_raises_retry:
    "i < length (threads s) \<Longrightarrow> threads s ! i = MsgWorker (InInference (m, r)) \<Longrightarrow> r < n \<Longrightarrow>
     step n s (s\<lparr>threads := (threads s)[i := MsgWorker (AtBackoff (m, r))]\<rparr>)"
| inference_raises_drop:
    "i < length (threads s) \<Longrightarrow> threads s ! i = MsgWorker (InInference (m, r)) \<Longrightarrow> \<not> r < n \<Longrightarrow>
     step n s (s\<lparr>threads := (threads s)[i := MsgWorker AtGet]\<rparr>)"
| requeue:
    "i < length (threads s) \<Longrightarrow> threads s ! i = MsgWorker (AtBackoff (m, r)) \<Longrightarrow>
     step n s (s\<lparr>threads := (threads s)[i := MsgWorker AtGet],
                 shared_queue := (m, r + 1) # shared_queue s\<rparr>)"
| output_returns:
    "i < length (threads s) \<Longrightarrow> threads s ! i = MsgWorker (AtOutput item) \<Longrightarrow>
     step n s (s\<lparr>threads := (threads s)[i := MsgWorker (AtSend item)]\<rparr>)"
| output_raises:
    "i < length (threads s) \<Longrightarrow> threads s ! i = MsgWorker (AtOutput item) \<Longrightarrow>
     step n s (s\<lparr>threads := (threads s)[i := Ended]\<rparr>)"
| send_returns:
    "i < length (threads s) \<Longrightarrow> threads s ! i = MsgWorker (AtSend item) \<Longrightarrow>
     step n s (s\<lparr>threads := (threads s)[i := MsgWorker AtGet]\<rparr>)"
| send_raises:
    "i < length (threads s) \<Longrightarrow> threads s ! i = MsgWorker (AtSend item) \<Longrightarrow>
     step n s (s\<lparr>threads := (threads s)[i := Ended]\<rparr>)"

inductive reaches :: "nat \<Rightarrow> sys \<Rightarrow> sys \<Rightarrow> bool" for n :: nat and init :: sys where
  start: "reaches n init init"
| after: "reaches n init s \<Longrightarrow> step n s s' \<Longrightarrow> reaches n init s'"

text \<open>
  \<open>main\<close>: \<open>nmax = 3\<close>; one thread with target \<open>msg_worker\<close>, one with target
  \<open>cleanup_worker\<close>, then the main thread enters \<open>store_msg_produce_ack\<close>; the queue is empty.
\<close>

definition nmax :: nat where "nmax = 3"

definition main :: sys where
  "main = \<lparr>threads = [MsgWorker AtGet, CleanupWorker, Listener], shared_queue = []\<rparr>"

text \<open>The threads that are inside the processing callback, and their number.\<close>

fun in_inference :: "thread \<Rightarrow> bool" where
  "in_inference (MsgWorker (InInference item)) = True"
| "in_inference t = False"

fun is_worker :: "thread \<Rightarrow> bool" where
  "is_worker (MsgWorker pc) = True"
| "is_worker t = False"

definition in_flight :: "sys \<Rightarrow> nat" where
  "in_flight s = length (filter in_inference (threads s))"

section \<open>Vocabulary for the properties\<close>

text \<open>
  The chunks of a connection, as the read loop meets them starting from the buffer \<open>buf\<close>:
  \<open>incomplete\<close> when the buffer never ends with the end sequence, not even after the last
  chunk; \<open>completes\<close> when it does so after the last chunk and not before.
\<close>

fun incomplete :: "bytes \<Rightarrow> bytes list \<Rightarrow> bool" where
  "incomplete buf [] = (\<not> py_endswith buf footer)"
| "incomplete buf (c # cs) = (\<not> py_endswith buf footer \<and> incomplete (buf @ c) cs)"

fun completes :: "bytes \<Rightarrow> bytes list \<Rightarrow> bool" where
  "completes buf [] = py_endswith buf footer"
| "completes buf (c # cs) = (\<not> py_endswith buf footer \<and> completes (buf @ c) cs)"

text \<open>\<open>y\<close> occurs after the first \<open>x\<close>.\<close>

definition precedes :: "'a \<Rightarrow> 'a \<Rightarrow> 'a list \<Rightarrow> bool" where
  "precedes x y xs = (y \<in> set (tl (dropWhile (\<lambda>z. z \<noteq> x) xs)))"

fun is_handoff :: "event \<Rightarrow> bool" where
  "is_handoff (Handoff b) = True"
| "is_handoff e = False"

fun is_drop :: "event \<Rightarrow> bool" where
  "is_drop (Dropped m) = True"
| "is_drop e = False"

fun is_requeue :: "event \<Rightarrow> bool" where
  "is_requeue (Requeued m r) = True"
| "is_requeue e = False"

text \<open>The passes of an item that fails with retry counts \<open>r\<close> up to \<open>r' - 1\<close>.\<close>

definition retry_trace :: "str \<Rightarrow> nat \<Rightarrow> nat \<Rightarrow> event list" where
  "retry_trace m r r' = concat (map (\<lambda>i. [Dequeued m i, Slept, Requeued m (Suc i)]) [r..<r'])"

text \<open>The messages dequeued for the first time, in order, and the fresh messages of a queue.\<close>

fun first_dequeues :: "event list \<Rightarrow> str list" where
  "first_dequeues [] = []"
| "first_dequeues (Dequeued m r # es) = (if r = 0 then m # first_dequeues es else first_dequeues es)"
| "first_dequeues (e # es) = first_dequeues es"

fun fresh_of :: "(str \<times> nat) list \<Rightarrow> str list" where
  "fresh_of [] = []"
| "fresh_of ((m, r) # q) = (if r = 0 then m # fresh_of q else fresh_of q)"

text \<open>Every requeue is followed at once by the dequeue of the same item, unless it is last.\<close>

fun requeued_is_next :: "event list \<Rightarrow> bool" where
  "requeued_is_next [] = True"
| "requeued_is_next [e] = True"
| "requeued_is_next (Requeued m r # e # es) = (e = Dequeued m r \<and> requeued_is_next (e # es))"
| "requeued_is_next (e # e' # es) = requeued_is_next (e' # es)"

section \<open>A concrete environment for the scenarios\<close>

definition ascii :: "bytes \<Rightarrow> str" where
  "ascii b = map (\<lambda>w. char_of (unat w)) b"

definition unascii :: "str \<Rightarrow> bytes" where
  "unascii s = map of_char s"

text \<open>
  Every collaborator succeeds, except that inference fails on its first \<open>fails\<close> calls; the
  downstream peer is \<open>peer\<close> at every delivery. \<open>to_mllp\<close> is the message library's: start
  byte, message, carriage return, end sequence.
\<close>

definition stub_env :: "nat \<Rightarrow> link \<Rightarrow> env" where
  "stub_env fails peer =
     \<lparr>decode_utf8 = (\<lambda>b. Inr (ascii b)),
      create_message = (\<lambda>m. Inr (''ACK '' @ m)),
      to_mllp = (\<lambda>t. Inr (SB # unascii t @ 0x0D # footer)),
      extract_msg_info = (\<lambda>m. Inr m),
      run_inference = (\<lambda>n i. if n < fails then Inl InferenceError else Inr ''label''),
      before_msg_ctrl_id = (\<lambda>i p. None),
      downstream = (\<lambda>n. peer)\<rparr>"

definition acking_peer :: link where
  "acking_peer = Connected \<lparr>reads = [Chunk (SB # unascii ''ACK'' @ 0x0D # footer)], send_ok = True\<rparr>"

definition st0 :: state where
  "st0 = \<lparr>queue = [], trace = [], calls = 0, deliveries = 0\<rparr>"

section \<open>Facts about the primitives\<close>

lemma py_find_ge: "- 1 \<le> py_find sub xs"
  by (induction xs) (auto simp: Let_def)

lemma py_find_neg_iff: "py_find sub xs < 0 \<longleftrightarrow> py_find sub xs = - 1"
  using py_find_ge [of sub xs] by arith

lemma py_find_absent: "x \<notin> set xs \<Longrightarrow> py_find [x] xs = - 1"
  by (induction xs) (auto simp: Let_def)

lemma py_find_first_elem: "x \<notin> set g \<Longrightarrow> py_find [x] (g @ x # r) = int (length g)"
  by (induction g) (auto simp: Let_def)

lemma take_is_prefix: "take (length sub) xs = sub \<longleftrightarrow> prefix sub xs"
  by (metis append_eq_conv_conj prefix_def)

lemma py_find_none_iff: "py_find sub xs = - 1 \<longleftrightarrow> \<not> sublist sub xs"
proof (induction xs)
  case Nil
  show ?case by simp
next
  case (Cons x xs)
  have "0 \<le> py_find sub xs \<or> py_find sub xs = - 1"
    using py_find_ge [of sub xs] by arith
  with Cons show ?case
    by (auto simp: Let_def sublist_Cons_right take_is_prefix)
qed

lemma py_find_prefix: "prefix sub xs \<Longrightarrow> py_find sub xs = 0"
  by (cases xs) (auto simp: take_is_prefix)

text \<open>An occurrence at index \<open>i\<close> bounds the result from above.\<close>

lemma py_find_upper:
  "i \<le> length xs \<Longrightarrow> prefix sub (drop i xs) \<Longrightarrow>
   0 \<le> py_find sub xs \<and> py_find sub xs \<le> int i"
proof (induction xs arbitrary: i)
  case Nil
  then show ?case by simp
next
  case (Cons x xs)
  show ?case
  proof (cases i)
    case 0
    with Cons.prems have "prefix sub (x # xs)" by simp
    then have "py_find sub (x # xs) = 0" by (rule py_find_prefix)
    with 0 show ?thesis by (simp del: py_find.simps)
  next
    case (Suc j)
    with Cons.prems have "j \<le> length xs" and "prefix sub (drop j xs)" by simp_all
    then have "0 \<le> py_find sub xs \<and> py_find sub xs \<le> int j" by (rule Cons.IH)
    with Suc show ?thesis by (simp add: Let_def)
  qed
qed

text \<open>The first occurrence: the pattern starts at no earlier index.\<close>

lemma py_find_first:
  "\<forall>j<length pre. \<not> prefix sub (drop j (pre @ sub @ post)) \<Longrightarrow>
   py_find sub (pre @ sub @ post) = int (length pre)"
proof (induction pre)
  case Nil
  then show ?case by (simp add: py_find_prefix)
next
  case (Cons x pre)
  from Cons.prems have np: "\<not> prefix sub (x # pre @ sub @ post)" by auto
  have "\<forall>j<length pre. \<not> prefix sub (drop j (pre @ sub @ post))"
  proof (intro allI impI)
    fix j assume "j < length pre"
    then have "Suc j < length (x # pre)" by simp
    with Cons.prems have "\<not> prefix sub (drop (Suc j) ((x # pre) @ sub @ post))" by blast
    then show "\<not> prefix sub (drop j (pre @ sub @ post))" by simp
  qed
  then have "py_find sub (pre @ sub @ post) = int (length pre)" by (rule Cons.IH)
  with np show ?case by (simp add: Let_def take_is_prefix)
qed

lemma no_early_prefix:
  assumes "sub \<noteq> []" and "\<not> sublist sub (pre @ butlast sub)" and "pre \<noteq> []"
  shows "\<not> prefix sub (pre @ sub @ post)"
proof
  assume p: "prefix sub (pre @ sub @ post)"
  have eq: "pre @ sub @ post = (pre @ butlast sub) @ (last sub # post)"
    using assms(1) by simp
  have q: "prefix (pre @ butlast sub) (pre @ sub @ post)"
    unfolding eq by (rule prefixI) simp
  have len: "length sub \<le> length (pre @ butlast sub)"
    using assms(1,3) by (cases pre) auto
  from p q len have "prefix sub (pre @ butlast sub)"
    by (rule prefix_length_prefix)
  then have "sublist sub (pre @ butlast sub)"
    by (rule prefix_imp_sublist)
  with assms(2) show False by simp
qed

lemma py_find_at:
  "\<not> sublist sub (pre @ butlast sub) \<Longrightarrow> sub \<noteq> [] \<Longrightarrow>
   py_find sub (pre @ sub @ post) = int (length pre)"
proof (induction pre)
  case Nil
  then show ?case by (simp add: py_find_prefix)
next
  case (Cons x pre)
  have np: "\<not> prefix sub (x # pre @ sub @ post)"
    using no_early_prefix [of sub "x # pre" post] Cons.prems by simp
  have "\<not> sublist sub (pre @ butlast sub)"
    using Cons.prems(1) by (auto simp: sublist_Cons_right)
  with Cons have "py_find sub (pre @ sub @ post) = int (length pre)" by simp
  with np show ?case by (simp add: Let_def take_is_prefix)
qed

lemma py_slice_nonneg:
  "0 \<le> s \<Longrightarrow> 0 \<le> e \<Longrightarrow>
   py_slice xs s e = take (nat (min e (int (length xs)) - min s (int (length xs)))) (drop (nat s) xs)"
  by (auto simp: py_slice_def Let_def min_def)

lemma footer_not_in_ext:
  "x \<noteq> 0x1C \<Longrightarrow> x \<noteq> 0x0D \<Longrightarrow> \<not> sublist footer G \<Longrightarrow> \<not> sublist footer P \<Longrightarrow>
   \<not> sublist footer (G @ x # P @ [0x1C])"
  by (auto simp: footer_def sublist_append sublist_Cons_right prefix_Cons suffix_def
      Cons_eq_append_conv append_eq_Cons_conv)

lemma py_slice_length_le: "0 \<le> s \<Longrightarrow> 0 \<le> e \<Longrightarrow> length (py_slice xs s e) \<le> nat (e - s)"
  by (auto simp: py_slice_def Let_def min_def)

section \<open>The frame codec: stripping a framed payload\<close>

lemma strip_framed:
  assumes G: "SB \<notin> set G" and nG: "\<not> sublist footer G" and nP: "\<not> sublist footer P"
  shows "strip_mllp_framing (G @ SB # P @ footer) = P"
proof -
  let ?bs = "G @ SB # P @ footer"
  have s: "py_find [SB] ?bs = int (length G)"
    using G by (rule py_find_first_elem)
  have "\<not> sublist footer ((G @ SB # P) @ butlast footer)"
    using footer_not_in_ext [of SB G P] nG nP by (simp add: SB_def footer_def)
  then have "py_find footer ((G @ SB # P) @ footer @ []) = int (length (G @ SB # P))"
    by (rule py_find_at) (simp add: footer_def)
  then have e: "py_find footer ?bs = int (length G) + 1 + int (length P)" by simp
  show ?thesis
    unfolding strip_mllp_framing_def Let_def s e
    by (simp add: py_slice_nonneg footer_def nat_add_distrib)
qed

lemma strip_truncates:
  assumes "sublist footer P"
  shows "length (strip_mllp_framing (SB # P @ footer)) < length P"
proof -
  from assms obtain ps ss where P: "P = ps @ footer @ ss" by (auto simp: sublist_def)
  let ?bs = "SB # P @ footer"
  have s: "py_find [SB] ?bs = 0" by simp
  have "Suc (length ps) \<le> length ?bs" by (simp add: P)
  moreover have "prefix footer (drop (Suc (length ps)) ?bs)" by (simp add: P)
  ultimately have e: "0 \<le> py_find footer ?bs \<and> py_find footer ?bs \<le> int (Suc (length ps))"
    by (rule py_find_upper)
  have "length (py_slice ?bs (0 + 1) (py_find footer ?bs)) \<le> nat (py_find footer ?bs - (0 + 1))"
    using e by (intro py_slice_length_le) arith+
  also have "\<dots> \<le> length ps" using e by arith
  also have "\<dots> < length P" by (simp add: P footer_def)
  finally show ?thesis
    unfolding strip_mllp_framing_def Let_def s by (simp del: py_find.simps)
qed

lemma no_footer_in_letter: "\<not> sublist footer [0x41]"
  by (simp add: footer_def sublist_Cons_right prefix_Cons)

lemma strip_cut:
  assumes "\<not> sublist footer (pre @ [0x1C])"
  shows "strip_mllp_framing (SB # pre @ footer @ post) = pre"
proof -
  let ?bs = "SB # pre @ footer @ post"
  have s: "py_find [SB] ?bs = 0" by simp
  have "\<not> sublist footer ((SB # pre) @ butlast footer)"
    using assms by (simp add: footer_def SB_def sublist_Cons_right prefix_Cons)
  then have "py_find footer ((SB # pre) @ footer @ post) = int (length (SB # pre))"
    by (rule py_find_at) (simp add: footer_def)
  then have e: "py_find footer ?bs = 1 + int (length pre)" by simp
  show ?thesis
    unfolding strip_mllp_framing_def Let_def s e
    by (simp add: py_slice_nonneg footer_def nat_add_distrib)
qed

lemma no_footer_in_letter_fs: "\<not> sublist footer ([0x41] @ [0x1C])"
  by (simp add: footer_def sublist_Cons_right prefix_Cons)

text \<open>
  C1, as amended. Stripping the framing from \<open>0x0B P 0x1C 0x0D\<close> gives back \<open>P\<close> exactly when
  \<open>P\<close> does not itself contain the end sequence \<open>0x1C 0x0D\<close>; when \<open>P\<close> contains it, the
  result is \<open>P\<close> cut at the first end sequence: the bytes \<open>pre\<close> of \<open>P\<close> before it.
\<close>

theorem strip_roundtrip_iff:
  "(strip_mllp_framing (SB # P @ footer) = P \<longleftrightarrow> \<not> sublist footer P) \<and>
   (\<forall>pre post. P = pre @ footer @ post \<and> \<not> sublist footer (pre @ [0x1C]) \<longrightarrow>
      strip_mllp_framing (SB # P @ footer) = pre)"
proof (intro conjI allI impI)
  show "strip_mllp_framing (SB # P @ footer) = P \<longleftrightarrow> \<not> sublist footer P"
  proof
    assume "strip_mllp_framing (SB # P @ footer) = P"
    then show "\<not> sublist footer P" using strip_truncates [of P] by auto
  next
    assume "\<not> sublist footer P"
    then show "strip_mllp_framing (SB # P @ footer) = P"
      using strip_framed [of "[]" P] by (simp add: footer_def)
  qed
next
  fix pre post
  assume "P = pre @ footer @ post \<and> \<not> sublist footer (pre @ [0x1C])"
  then show "strip_mllp_framing (SB # P @ footer) = pre"
    using strip_cut [of pre "post @ footer"] by simp
qed

theorem strip_roundtrip_iff_witness:
  "strip_mllp_framing (SB # [0x41] @ footer) = [0x41] \<and>
   strip_mllp_framing (SB # ([0x41] @ footer @ [0x42]) @ footer) = [0x41]"
  using strip_roundtrip_iff [of "[0x41]"] strip_roundtrip_iff [of "[0x41] @ footer @ [0x42]"]
    no_footer_in_letter no_footer_in_letter_fs
  by blast

text \<open>
  C1, as stated, fails: the payload \<open>0x1C 0x0D\<close> comes back empty.
\<close>

theorem roundtrip_fails_on_embedded_footer:
  "strip_mllp_framing (SB # [0x1C, 0x0D] @ footer) \<noteq> [0x1C, 0x0D]"
  by (simp add: strip_mllp_framing_def SB_def footer_def py_slice_def)

text \<open>
  C8, as amended. For garbage \<open>G\<close> that holds neither the start byte nor the end sequence,
  and a payload \<open>P\<close> that does not hold the end sequence, stripping \<open>G 0x0B P 0x1C 0x0D\<close>
  discards \<open>G\<close> and returns \<open>P\<close>.
\<close>

theorem strip_discards_garbage:
  "SB \<notin> set G \<Longrightarrow> \<not> sublist footer G \<Longrightarrow> \<not> sublist footer P \<Longrightarrow>
   strip_mllp_framing (G @ SB # P @ footer) = P"
  by (rule strip_framed)

theorem strip_discards_garbage_witness:
  "SB \<notin> set [0x41] \<and> \<not> sublist footer [0x41] \<and>
   strip_mllp_framing ([0x41] @ SB # [0x41] @ footer) = [0x41]"
  using strip_discards_garbage [of "[0x41]" "[0x41]"] no_footer_in_letter
  by (simp add: SB_def)

text \<open>
  C8, as stated, fails: garbage \<open>0x1C 0x0D\<close> before the frame \<open>0x0B 0x41 0x1C 0x0D\<close> makes the
  decoder return the empty payload instead of \<open>0x41\<close>.
\<close>

theorem garbage_with_footer_breaks_decoder:
  "strip_mllp_framing ([0x1C, 0x0D] @ SB # [0x41] @ footer) \<noteq> [0x41]"
  by (simp add: strip_mllp_framing_def SB_def footer_def py_slice_def)

text \<open>Garbage that holds the start byte is not discarded either: the cut is at the first \<open>0x0B\<close>.\<close>

lemma garbage_with_start_byte_is_kept:
  "strip_mllp_framing ([SB] @ SB # [0x41] @ footer) = [SB, 0x41]"
  by (simp add: strip_mllp_framing_def SB_def footer_def py_slice_def)

text \<open>
  C10. A buffer without the start byte is not rejected: when the end sequence first occurs
  after the bytes \<open>pre\<close>, the function returns \<open>pre\<close>, all bytes from position 0 up to the
  first end sequence.
\<close>

theorem strip_without_start_byte:
  assumes "SB \<notin> set bs" and "bs = pre @ footer @ post"
    and "\<forall>j<length pre. \<not> prefix footer (drop j bs)"
  shows "strip_mllp_framing bs = pre"
proof -
  have s: "py_find [SB] bs = - 1" using assms(1) by (rule py_find_absent)
  have e: "py_find footer bs = int (length pre)"
    unfolding assms(2) using assms(3) unfolding assms(2) by (rule py_find_first)
  show ?thesis unfolding strip_mllp_framing_def Let_def s e
    by (simp add: py_slice_nonneg assms(2))
qed

theorem strip_without_start_byte_witness:
  "SB \<notin> set ([0x41, 0x1C] @ footer @ [0x42, 0x1C, 0x0D]) \<and>
   \<not> prefix footer ([0x41, 0x1C] @ footer @ [0x42, 0x1C, 0x0D]) \<and>
   \<not> prefix footer (drop 1 ([0x41, 0x1C] @ footer @ [0x42, 0x1C, 0x0D])) \<and>
   strip_mllp_framing ([0x41, 0x1C] @ footer @ [0x42, 0x1C, 0x0D]) = [0x41, 0x1C]"
  using strip_without_start_byte
    [of "[0x41, 0x1C] @ footer @ [0x42, 0x1C, 0x0D]" "[0x41, 0x1C]" "[0x42, 0x1C, 0x0D]"]
  by (simp add: SB_def footer_def less_Suc_eq)

section \<open>The read loop\<close>

lemma read_closed: "\<not> py_endswith buf footer \<Longrightarrow> read_until_footer fuel [] buf = Spins"
  by (induction fuel) auto

lemma read_incomplete:
  "incomplete buf chunks \<Longrightarrow> read_until_footer fuel (map Chunk chunks) buf = Spins"
proof (induction chunks arbitrary: fuel buf)
  case Nil
  then show ?case by (simp add: read_closed)
next
  case (Cons c cs)
  then show ?case by (cases fuel) auto
qed

lemma read_reset:
  "incomplete buf chunks \<Longrightarrow> length chunks < fuel \<Longrightarrow>
   read_until_footer fuel (map Chunk chunks @ Reset # rest) buf = Raises OSError"
proof (induction chunks arbitrary: fuel buf)
  case Nil
  then show ?case by (cases fuel) auto
next
  case (Cons c cs)
  then show ?case by (cases fuel) auto
qed

lemma read_completes:
  "completes buf chunks \<Longrightarrow> length chunks \<le> fuel \<Longrightarrow>
   read_until_footer fuel (map Chunk chunks @ rest) buf = Returns (buf @ concat chunks)"
proof (induction chunks arbitrary: fuel buf)
  case Nil
  then show ?case by (cases fuel) auto
next
  case (Cons c cs)
  then show ?case by (cases fuel) auto
qed

lemma read_never_blocks: "read_until_footer fuel rs buf \<noteq> Blocks"
  by (induction fuel rs buf rule: read_until_footer.induct)
     (auto split: prod.splits sum.splits recv_event.splits list.splits)

lemma py_endswith_suffix: "py_endswith xs suf \<longleftrightarrow> suffix suf xs"
  unfolding py_endswith_def suffix_def
  by (metis append_eq_conv_conj append_take_drop_id diff_add_inverse2 length_append length_drop
      le_add2)

lemma proper_prefix_no_footer:
  assumes nf: "\<not> sublist footer (body @ [0x1C])"
    and p: "prefix xs (body @ footer)" and ne: "xs \<noteq> body @ footer"
  shows "\<not> py_endswith xs footer"
proof
  assume "py_endswith xs footer"
  then have "suffix footer xs" by (simp add: py_endswith_suffix)
  then have sl: "sublist footer xs" by (rule suffix_imp_sublist)
  have "body @ footer = (body @ [0x1C]) @ [0x0D]" by (simp add: footer_def)
  with p ne have "prefix xs (body @ [0x1C])"
    by (metis prefix_snoc)
  then have "sublist xs (body @ [0x1C])" by (rule prefix_imp_sublist)
  with sl have "sublist footer (body @ [0x1C])" by (rule sublist_order.order_trans)
  with nf show False by simp
qed

lemma chunks_complete:
  assumes "\<forall>c\<in>set chunks. c \<noteq> []" and "chunks \<noteq> []"
    and "buf @ concat chunks = body @ footer"
    and "\<not> sublist footer (body @ [0x1C])"
  shows "completes buf chunks"
  using assms
proof (induction chunks arbitrary: buf)
  case Nil
  then show ?case by simp
next
  case (Cons c cs)
  have "prefix buf (body @ footer)"
    using Cons.prems(3) by (metis prefixI)
  moreover have "buf \<noteq> body @ footer"
    using Cons.prems(1,3) by auto
  ultimately have nb: "\<not> py_endswith buf footer"
    using Cons.prems(4) proper_prefix_no_footer by blast
  show ?case
  proof (cases "cs = []")
    case True
    with Cons.prems(3) have "py_endswith (buf @ c) footer"
      by (simp add: py_endswith_suffix suffix_def)
    with nb True show ?thesis by simp
  next
    case False
    have "completes (buf @ c) cs"
      using Cons.prems False by (intro Cons.IH) auto
    with nb show ?thesis by simp
  qed
qed

text \<open>
  The whole decoder, read loop and stripping: however the stream \<open>G 0x0B P 0x1C 0x0D\<close> is cut
  into non-empty reads, the loop ends after the last one and the payload is \<open>P\<close>.
\<close>

lemma framed_stream_is_decoded:
  assumes "SB \<notin> set G" and "\<not> sublist footer G" and "\<not> sublist footer P"
    and "concat chunks = G @ SB # P @ footer" and "\<forall>c\<in>set chunks. c \<noteq> []"
    and "length chunks \<le> fuel"
  shows "map_outcome strip_mllp_framing (read_until_footer fuel (map Chunk chunks @ rest) []) = Returns P"
proof -
  have ne: "chunks \<noteq> []" using assms(4) by auto
  have nf: "\<not> sublist footer ((G @ SB # P) @ [0x1C])"
    using footer_not_in_ext [of SB G P] assms(2,3) by (simp add: SB_def)
  have "completes [] chunks"
    using assms(5) ne _ nf by (rule chunks_complete) (simp add: assms(4))
  then have "read_until_footer fuel (map Chunk chunks @ rest) [] = Returns ([] @ concat chunks)"
    using assms(6) by (rule read_completes)
  then show ?thesis
    by (simp add: assms(4) strip_framed [OF assms(1,2,3)])
qed

section \<open>The inbound listener\<close>

text \<open>A complete frame and collaborators that succeed: the exchange returns.\<close>

lemma complete_frame_is_served:
  assumes "reads c = map Chunk chunks @ rest" and "completes [] chunks" and "length chunks \<le> fuel"
    and "decode_utf8 env (strip_mllp_framing (concat chunks)) = Inr m"
    and "create_message env m = Inr ack_msg" and "to_mllp env ack_msg = Inr ack_out"
    and "send_ok c"
  shows "handle_connection env fuel c st =
           (Returns (), st\<lparr>queue := queue st @ [(m, 0)],
                           trace := trace st @ [Enqueued m 0, AckSent ack_out, Closed]\<rparr>)"
  using assms read_completes [of "[]" chunks fuel rest]
  by (simp add: handle_connection_def emit_def put_def)

text \<open>A reset before the frame is complete: the exception leaves the accept loop.\<close>

lemma reset_ends_listener:
  assumes "reads c = map Chunk chunks @ Reset # rest" and "incomplete [] chunks"
    and "length chunks < fuel"
  shows "store_msg_produce_ack env fuel (c # cs) st = (Raises OSError, st)"
  using assms by (simp add: handle_connection_def read_reset)

text \<open>
  C2, as amended. When the peer closes the inbound connection before a complete frame has
  arrived, nothing is enqueued and no acknowledgment is sent, but the session is not
  aborted and the accept loop does not go on: every further \<open>recv\<close> returns the empty bytes
  object, so however many reads are allowed the listener is still inside the read loop of
  this connection, the state is unchanged, and the later connections \<open>cs\<close> are not served.
\<close>

theorem early_close_stalls_listener:
  assumes "reads c = map Chunk chunks" and "incomplete [] chunks"
  shows "store_msg_produce_ack env fuel (c # cs) st = (Spins, st)"
  using assms by (simp add: handle_connection_def read_incomplete)

theorem early_close_stalls_listener_witness:
  "store_msg_produce_ack (stub_env 0 Refused) 7
     (\<lparr>reads = map Chunk [[SB, 0x41], [0x42, 0x1C]], send_ok = True\<rparr> #
      [\<lparr>reads = [Chunk [SB, 0x43, 0x1C, 0x0D]], send_ok = True\<rparr>]) st0 = (Spins, st0)"
proof (rule early_close_stalls_listener)
  show "reads \<lparr>reads = map Chunk [[SB, 0x41], [0x42, 0x1C]], send_ok = True\<rparr> =
        map Chunk [[SB, 0x41], [0x42, 0x1C]]" by simp
  show "incomplete [] [[SB, 0x41], [0x42, 0x1C]]" by code_simp
qed

text \<open>
  C2, as stated, fails: the peer sends \<open>0x0B 0x41\<close> and closes; a second peer then sends a
  complete frame. After fifty reads the listener is still reading the first connection,
  and the second one has not been served.
\<close>

theorem early_close_blocks_next_connection:
  "store_msg_produce_ack (stub_env 0 Refused) 50
     [\<lparr>reads = [Chunk [SB, 0x41]], send_ok = True\<rparr>,
      \<lparr>reads = [Chunk [SB, 0x42, 0x1C, 0x0D]], send_ok = True\<rparr>] st0 = (Spins, st0)"
  by code_simp

text \<open>
  C7, as amended. On every inbound exchange that returns, the decoded payload is enqueued
  with attempt 0 first, then the framed acknowledgment is written on the connection, and
  the connection is closed last.
\<close>

theorem exchange_enqueues_then_acks:
  assumes "handle_connection env fuel c st = (Returns u, st')"
  shows "\<exists>input_msg m ack_msg ack_out.
           read_until_footer fuel (reads c) [] = Returns input_msg \<and>
           decode_utf8 env (strip_mllp_framing input_msg) = Inr m \<and>
           create_message env m = Inr ack_msg \<and>
           to_mllp env ack_msg = Inr ack_out \<and>
           trace st' = trace st @ [Enqueued m 0, AckSent ack_out, Closed] \<and>
           queue st' = queue st @ [(m, 0)]"
  using assms
  by (auto simp: handle_connection_def Let_def emit_def put_def
      split: outcome.splits sum.splits if_splits)

theorem exchange_enqueues_then_acks_witness:
  "\<exists>input_msg m ack_msg ack_out.
     read_until_footer 5 (reads \<lparr>reads = [Chunk [SB, 0x41], Chunk [0x42, 0x1C, 0x0D]], send_ok = True\<rparr>) []
       = Returns input_msg \<and>
     decode_utf8 (stub_env 0 Refused) (strip_mllp_framing input_msg) = Inr m \<and>
     create_message (stub_env 0 Refused) m = Inr ack_msg \<and>
     to_mllp (stub_env 0 Refused) ack_msg = Inr ack_out \<and>
     trace \<lparr>queue = [(''AB'', 0)],
            trace = [Enqueued ''AB'' 0, AckSent (SB # unascii ''ACK AB'' @ 0x0D # footer), Closed],
            calls = 0, deliveries = 0\<rparr>
       = trace st0 @ [Enqueued m 0, AckSent ack_out, Closed] \<and>
     queue \<lparr>queue = [(''AB'', 0)],
            trace = [Enqueued ''AB'' 0, AckSent (SB # unascii ''ACK AB'' @ 0x0D # footer), Closed],
            calls = 0, deliveries = 0\<rparr>
       = queue st0 @ [(m, 0)]"
proof (rule exchange_enqueues_then_acks)
  show "handle_connection (stub_env 0 Refused) 5
          \<lparr>reads = [Chunk [SB, 0x41], Chunk [0x42, 0x1C, 0x0D]], send_ok = True\<rparr> st0 =
        (Returns (),
         \<lparr>queue = [(''AB'', 0)],
          trace = [Enqueued ''AB'' 0, AckSent (SB # unascii ''ACK AB'' @ 0x0D # footer), Closed],
          calls = 0, deliveries = 0\<rparr>)"
    by code_simp
qed

text \<open>
  C7, as stated, fails: in the exchange of the frame \<open>0x0B 0x41 0x42 0x1C 0x0D\<close> the
  acknowledgment is not written before the payload is enqueued; it is written after.
\<close>

theorem ack_is_not_sent_before_enqueue:
  "\<not> precedes (AckSent (SB # unascii ''ACK AB'' @ 0x0D # footer)) (Enqueued ''AB'' 0)
       (trace (snd (handle_connection (stub_env 0 Refused) 5
          \<lparr>reads = [Chunk [SB, 0x41], Chunk [0x42, 0x1C, 0x0D]], send_ok = True\<rparr> st0))) \<and>
   precedes (Enqueued ''AB'' 0) (AckSent (SB # unascii ''ACK AB'' @ 0x0D # footer))
       (trace (snd (handle_connection (stub_env 0 Refused) 5
          \<lparr>reads = [Chunk [SB, 0x41], Chunk [0x42, 0x1C, 0x0D]], send_ok = True\<rparr> st0)))"
  by code_simp

section \<open>The outbound sender\<close>





lemma start_client_never_blocks: "start_client fuel l msg \<noteq> Blocks"
  using read_never_blocks by (auto simp: start_client_def split: link.splits outcome.splits)

section \<open>One pass of the retry worker\<close>

lemma iteration_retry:
  assumes "queue st = (m, r) # rest" and "extract_msg_info env m = Inr info"
    and "run_inference env (calls st) info = Inl e" and "r < n"
  shows "worker_iteration env fuel n st =
     (Returns (), st\<lparr>queue := (m, Suc r) # rest,
                     trace := trace st @ [Dequeued m r, Slept, Requeued m (Suc r)],
                     calls := Suc (calls st)\<rparr>)"
  using assms by (simp add: worker_iteration_def emit_def insert_front_def)

lemma iteration_drop:
  assumes "queue st = (m, r) # rest" and "extract_msg_info env m = Inr info"
    and "run_inference env (calls st) info = Inl e" and "\<not> r < n"
  shows "worker_iteration env fuel n st =
     (Returns (), st\<lparr>queue := rest,
                     trace := trace st @ [Dequeued m r, Dropped m, TaskDone],
                     calls := Suc (calls st)\<rparr>)"
  using assms by (simp add: worker_iteration_def emit_def insert_front_def)

lemma repeat_call_Inr: "repeat_call k (Inr v) = Inr v"
  by (induction k) auto

lemma repeat_call_Inl: "repeat_call k (Inl e) = Inl e"
  by (induction k) auto

lemma repeat_call_id: "repeat_call k r = r"
  by (cases r) (simp_all add: repeat_call_Inr repeat_call_Inl)

lemma create_msg_raises: "\<exists>e. create_msg env info pred = Inl e"
  by (simp add: create_msg_def split: option.splits)

lemma create_msg_never_returns: "create_msg env info pred \<noteq> Inr oul"
  by (simp add: create_msg_def split: option.splits)

text \<open>A pass whose inference returns ends in \<open>create_msg\<close>, before any handoff.\<close>

lemma iteration_output_fails:
  assumes "queue st = (m, r) # rest" and "extract_msg_info env m = Inr info"
    and "run_inference env (calls st) info = Inr pred"
  shows "\<exists>e. create_msg env info pred = Inl e \<and>
           worker_iteration env fuel n st =
             (Raises e, st\<lparr>queue := rest, trace := trace st @ [Dequeued m r],
                             calls := Suc (calls st)\<rparr>)"
proof -
  from create_msg_raises obtain e where e: "create_msg env info pred = Inl e" by blast
  with assms have "worker_iteration env fuel n st =
             (Raises e, st\<lparr>queue := rest, trace := trace st @ [Dequeued m r],
                             calls := Suc (calls st)\<rparr>)"
    by (simp add: worker_iteration_def emit_def repeat_call_id)
  with e show ?thesis by blast
qed

lemma iteration_no_handoff:
  assumes "worker_iteration env fuel n st = (u, st1)"
  shows "\<exists>new. trace st1 = trace st @ new \<and> filter is_handoff new = []"
  using assms
  by (auto simp: worker_iteration_def Let_def emit_def insert_front_def repeat_call_id
      create_msg_never_returns split: list.splits sum.splits if_splits prod.splits)

section \<open>The delivery step\<close>





section \<open>Runs of the retry worker\<close>

lemma arrive_simps:
  "queue (arrive ms st) = queue st @ map (\<lambda>m. (m, 0)) ms"
  "trace (arrive ms st) = trace st"
  "calls (arrive ms st) = calls st"
  "deliveries (arrive ms st) = deliveries st"
  by (simp_all add: arrive_def)

lemma retry_trace_same: "retry_trace m r r = []"
  by (simp add: retry_trace_def)

lemma retry_trace_step:
  "retry_trace m r (Suc (r + k)) = [Dequeued m r, Slept, Requeued m (Suc r)] @ retry_trace m (Suc r) (Suc r + k)"
  by (simp add: retry_trace_def upt_conv_Cons)

lemma worker_retries:
  assumes "queue st = (m, r) # rest" and "extract_msg_info env m = Inr info"
    and "\<forall>i<k. \<exists>e. run_inference env (calls st + i) info = Inl e"
    and "r + k \<le> n" and "length rounds1 = k"
  shows "msg_worker env fuel n (rounds1 @ rounds2) st =
         msg_worker env fuel n rounds2
           (st\<lparr>queue := (m, r + k) # rest @ map (\<lambda>m. (m, 0)) (concat rounds1),
               trace := trace st @ retry_trace m r (r + k),
               calls := calls st + k\<rparr>)"
  using assms
proof (induction k arbitrary: st r rest rounds1)
  case 0
  from "0.prems"(1) have eq: "st\<lparr>queue := (m, r) # rest\<rparr> = st" by (cases st) auto
  from "0.prems"(5) show ?case by (simp add: retry_trace_same eq)
next
  case (Suc k)
  from Suc.prems(5) obtain ms rs where rs: "rounds1 = ms # rs" "length rs = k"
    by (cases rounds1) auto
  let ?a = "arrive ms st"
  let ?st1 = "?a\<lparr>queue := (m, Suc r) # rest @ map (\<lambda>m. (m, 0)) ms,
                   trace := trace ?a @ [Dequeued m r, Slept, Requeued m (Suc r)],
                   calls := Suc (calls ?a)\<rparr>"
  from Suc.prems(3) obtain e where e: "run_inference env (calls st) info = Inl e"
    by force
  have it: "worker_iteration env fuel n ?a = (Returns (), ?st1)"
    using Suc.prems(1,2,4) e
    by (intro iteration_retry [where rest = "rest @ map (\<lambda>m. (m, 0)) ms" and info = info and e = e])
       (simp_all add: arrive_simps)
  have fails: "\<forall>i<k. \<exists>e. run_inference env (calls ?st1 + i) info = Inl e"
  proof (intro allI impI)
    fix i assume "i < k"
    then have "Suc i < Suc k" by simp
    with Suc.prems(3) have "\<exists>e. run_inference env (calls st + Suc i) info = Inl e" by blast
    then show "\<exists>e. run_inference env (calls ?st1 + i) info = Inl e"
      by (simp add: arrive_simps)
  qed
  have ih: "msg_worker env fuel n (rs @ rounds2) ?st1 =
         msg_worker env fuel n rounds2
           (?st1\<lparr>queue := (m, Suc r + k) # (rest @ map (\<lambda>m. (m, 0)) ms) @ map (\<lambda>m. (m, 0)) (concat rs),
               trace := trace ?st1 @ retry_trace m (Suc r) (Suc r + k),
               calls := calls ?st1 + k\<rparr>)"
    using Suc.prems(2,4) rs(2) fails
    by (intro Suc.IH) simp_all
  have "msg_worker env fuel n (rounds1 @ rounds2) st = msg_worker env fuel n (rs @ rounds2) ?st1"
    by (simp add: rs(1) it)
  also note ih
  finally show ?case
    by (simp add: rs(1) arrive_def retry_trace_step)
qed


lemma filter_retry_trace:
  "filter is_handoff (retry_trace m r r') = []"
  "filter is_drop (retry_trace m r r') = []"
  "length (filter is_requeue (retry_trace m r r')) = r' - r"
  "length (filter (\<lambda>e. e = Slept) (retry_trace m r r')) = r' - r"
  unfolding retry_trace_def by (induction r') (auto simp: filter_concat)

text \<open>
  The passes of an item whose inference fails \<open>k\<close> times and then returns: \<open>k\<close> requeues, and
  on the next pass \<open>create_msg\<close> raises outside the \<open>try\<close>; the worker is left by that
  exception with the item gone and nothing handed off.
\<close>

lemma inference_success_ends_worker:
  assumes "k \<le> num_retries"
    and "queue st = (m, 0) # rest"
    and "extract_msg_info env m = Inr info"
    and "\<forall>i<k. \<exists>e. run_inference env (calls st + i) info = Inl e"
    and "run_inference env (calls st + k) info = Inr pred"
    and "length rounds = Suc k"
  shows "\<exists>e. create_msg env info pred = Inl e \<and>
           msg_worker env fuel num_retries rounds st =
             (Raises e,
              st\<lparr>queue := rest @ map (\<lambda>m. (m, 0)) (concat rounds),
                 trace := trace st @ retry_trace m 0 k @ [Dequeued m k],
                 calls := calls st + Suc k\<rparr>)"
proof -
  from assms(6) obtain rounds1 ms where rounds: "rounds = rounds1 @ [ms]" "length rounds1 = k"
    by (cases rounds rule: rev_cases) auto
  let ?q = "rest @ map (\<lambda>m. (m, 0)) (concat rounds1)"
  let ?st1 = "st\<lparr>queue := (m, 0 + k) # ?q, trace := trace st @ retry_trace m 0 (0 + k),
                calls := calls st + k\<rparr>"
  have run: "msg_worker env fuel num_retries rounds st = msg_worker env fuel num_retries [ms] ?st1"
    unfolding rounds(1) using assms(2,3,4) _ rounds(2)
    by (rule worker_retries) (use assms(1) in simp)
  let ?a = "arrive ms ?st1"
  have "\<exists>e. create_msg env info pred = Inl e \<and>
           worker_iteration env fuel num_retries ?a =
             (Raises e, ?a\<lparr>queue := ?q @ map (\<lambda>m. (m, 0)) ms,
                             trace := trace ?a @ [Dequeued m k],
                             calls := Suc (calls ?a)\<rparr>)"
    using assms(3,5)
    by (intro iteration_output_fails [where info = info]) (simp_all add: arrive_simps)
  then obtain e where e: "create_msg env info pred = Inl e"
    and it: "worker_iteration env fuel num_retries ?a =
             (Raises e, ?a\<lparr>queue := ?q @ map (\<lambda>m. (m, 0)) ms,
                             trace := trace ?a @ [Dequeued m k],
                             calls := Suc (calls ?a)\<rparr>)"
    by blast
  have "msg_worker env fuel num_retries [ms] ?st1 =
     (Raises e, arrive [] (?a\<lparr>queue := ?q @ map (\<lambda>m. (m, 0)) ms,
                             trace := trace ?a @ [Dequeued m k],
                             calls := Suc (calls ?a)\<rparr>))"
    using it by simp
  then have "msg_worker env fuel num_retries rounds st =
             (Raises e,
              st\<lparr>queue := rest @ map (\<lambda>m. (m, 0)) (concat rounds),
                 trace := trace st @ retry_trace m 0 k @ [Dequeued m k],
                 calls := calls st + Suc k\<rparr>)"
    unfolding run by (simp add: rounds(1) arrive_def)
  with e show ?thesis by blast
qed

text \<open>No run of the worker ever hands anything to the outbound sender.\<close>

lemma worker_never_hands_off:
  assumes "msg_worker env fuel n rounds st = (u, st')"
  shows "\<exists>new. trace st' = trace st @ new \<and> filter is_handoff new = []"
  using assms
proof (induction rounds arbitrary: st)
  case Nil
  then show ?case by auto
next
  case (Cons ms rounds)
  obtain u1 st1 where it: "worker_iteration env fuel n (arrive ms st) = (u1, st1)"
    by (cases "worker_iteration env fuel n (arrive ms st)") auto
  from iteration_no_handoff [OF it] obtain new1 where
    t1: "trace st1 = trace st @ new1" and n1: "filter is_handoff new1 = []"
    by (auto simp: arrive_simps)
  show ?case
  proof (cases "u1 = Returns () \<or> u1 = Blocks")
    case True
    with Cons.prems it have "msg_worker env fuel n rounds st1 = (u, st')" by auto
    from Cons.IH [OF this] obtain new2 where
      "trace st' = trace st1 @ new2" and "filter is_handoff new2 = []" by auto
    with t1 n1 show ?thesis by (intro exI [of _ "new1 @ new2"]) simp
  next
    case False
    with Cons.prems it have "st' = arrive (concat rounds) st1"
      by (auto split: outcome.splits)
    with t1 n1 show ?thesis by (intro exI [of _ new1]) (simp add: arrive_simps)
  qed
qed

text \<open>
  C4 on the code: the item A fails twice and its third inference returns, with
  \<open>num_retries = 3\<close>; the worker is then left by \<open>NameError\<close> from \<open>create_msg\<close>, nothing has
  been handed to the outbound sender, and the items B and C are never dequeued.
\<close>

theorem output_slip_ends_worker:
  "msg_worker (stub_env 2 acking_peer) 5 3 [[], [''C''], [], []] (st0\<lparr>queue := [(''A'', 0), (''B'', 0)]\<rparr>) =
     (Raises NameError,
      \<lparr>queue = [(''B'', 0), (''C'', 0)],
       trace = [Dequeued ''A'' 0, Slept, Requeued ''A'' 1, Dequeued ''A'' 1, Slept,
                Requeued ''A'' 2, Dequeued ''A'' 2],
       calls = 3, deliveries = 0\<rparr>)"
  by code_simp

text \<open>
  C5. An item at the head of the queue with attempt 0 whose inference fails
  \<open>num_retries + 1\<close> times in a row is requeued \<open>num_retries\<close> times and then dropped: after
  the last failure it is not in the queue any more, and it was never handed to the
  outbound sender.
\<close>

theorem exhausted_item_is_dropped:
  assumes "queue st = (m, 0) # rest"
    and "extract_msg_info env m = Inr info"
    and "\<forall>i\<le>num_retries. \<exists>e. run_inference env (calls st + i) info = Inl e"
    and "length rounds = Suc num_retries"
  shows "msg_worker env fuel num_retries rounds st =
           (Returns (),
            st\<lparr>queue := rest @ map (\<lambda>m. (m, 0)) (concat rounds),
               trace := trace st @ retry_trace m 0 num_retries @
                          [Dequeued m num_retries, Dropped m, TaskDone],
               calls := calls st + Suc num_retries\<rparr>)"
proof -
  from assms(4) obtain rounds1 ms where rounds: "rounds = rounds1 @ [ms]" "length rounds1 = num_retries"
    by (cases rounds rule: rev_cases) auto
  let ?q = "rest @ map (\<lambda>m. (m, 0)) (concat rounds1)"
  let ?st1 = "st\<lparr>queue := (m, 0 + num_retries) # ?q, trace := trace st @ retry_trace m 0 (0 + num_retries),
                calls := calls st + num_retries\<rparr>"
  have "\<forall>i<num_retries. \<exists>e. run_inference env (calls st + i) info = Inl e"
    using assms(3) by auto
  with assms(1,2) have run: "msg_worker env fuel num_retries rounds st = msg_worker env fuel num_retries [ms] ?st1"
    unfolding rounds(1) using rounds(2)
    by (intro worker_retries) simp_all
  let ?a = "arrive ms ?st1"
  from assms(3) obtain e where e: "run_inference env (calls st + num_retries) info = Inl e" by blast
  have it: "worker_iteration env fuel num_retries ?a =
     (Returns (), ?a\<lparr>queue := ?q @ map (\<lambda>m. (m, 0)) ms,
                     trace := trace ?a @ [Dequeued m num_retries, Dropped m, TaskDone],
                     calls := Suc (calls ?a)\<rparr>)"
    using assms(2) e
    by (intro iteration_drop [where info = info and e = e]) (simp_all add: arrive_simps)
  have "msg_worker env fuel num_retries [ms] ?st1 =
     (Returns (), ?a\<lparr>queue := ?q @ map (\<lambda>m. (m, 0)) ms,
                     trace := trace ?a @ [Dequeued m num_retries, Dropped m, TaskDone],
                     calls := Suc (calls ?a)\<rparr>)"
    using it by simp
  then show ?thesis
    unfolding run by (simp add: rounds(1) arrive_def)
qed

theorem exhausted_item_is_dropped_witness:
  "msg_worker (stub_env 4 acking_peer) 5 3 [[], [''C''], [], []] (st0\<lparr>queue := [(''A'', 0), (''B'', 0)]\<rparr>) =
     (Returns (),
      st0\<lparr>queue := [(''A'', 0), (''B'', 0)]\<rparr>
        \<lparr>queue := [(''B'', 0)] @ map (\<lambda>m. (m, 0)) (concat [[], [''C''], [], []]),
         trace := trace (st0\<lparr>queue := [(''A'', 0), (''B'', 0)]\<rparr>) @ retry_trace ''A'' 0 3 @
                    [Dequeued ''A'' 3, Dropped ''A'', TaskDone],
         calls := calls (st0\<lparr>queue := [(''A'', 0), (''B'', 0)]\<rparr>) + Suc 3\<rparr>)"
proof (rule exhausted_item_is_dropped [where info = "''A''"])
  show "queue (st0\<lparr>queue := [(''A'', 0), (''B'', 0)]\<rparr>) = (''A'', 0) # [(''B'', 0)]" by simp
  show "extract_msg_info (stub_env 4 acking_peer) ''A'' = Inr ''A''" by (simp add: stub_env_def)
  show "\<forall>i\<le>3. \<exists>e. run_inference (stub_env 4 acking_peer)
          (calls (st0\<lparr>queue := [(''A'', 0), (''B'', 0)]\<rparr>) + i) ''A'' = Inl e"
    by (simp add: stub_env_def st0_def)
  show "length [[], [''C''], [], []] = Suc 3" by simp
qed

section \<open>Order of service\<close>

lemma first_dequeues_append: "first_dequeues (xs @ ys) = first_dequeues xs @ first_dequeues ys"
  by (induction xs rule: first_dequeues.induct) auto

lemma fresh_of_append: "fresh_of (q @ q') = fresh_of q @ fresh_of q'"
  by (induction q rule: fresh_of.induct) auto

lemma fresh_of_fresh: "fresh_of (map (\<lambda>m. (m, 0)) ms) = ms"
  by (induction ms) auto

lemma requeued_is_next_Cons:
  "requeued_is_next (e # es) \<longleftrightarrow>
     (es = [] \<or> (requeued_is_next es \<and> (\<forall>m r. e = Requeued m r \<longrightarrow> hd es = Dequeued m r)))"
  by (cases es; cases e) auto

lemma requeued_is_next_append:
  assumes "requeued_is_next xs" and "requeued_is_next ys"
    and "\<And>m r. xs \<noteq> [] \<Longrightarrow> last xs = Requeued m r \<Longrightarrow> ys \<noteq> [] \<Longrightarrow> hd ys = Dequeued m r"
  shows "requeued_is_next (xs @ ys)"
  using assms
proof (induction xs)
  case Nil
  then show ?case by simp
next
  case (Cons e es)
  show ?case
  proof (cases "es = []")
    case True
    with Cons.prems show ?thesis
      by (cases ys) (auto simp: requeued_is_next_Cons)
  next
    case False
    with Cons.prems have 1: "requeued_is_next es"
      and 2: "\<forall>m r. e = Requeued m r \<longrightarrow> hd es = Dequeued m r"
      by (auto simp: requeued_is_next_Cons)
    have "requeued_is_next (es @ ys)"
      using 1 Cons.prems(2,3) False by (intro Cons.IH) auto
    with 2 False show ?thesis
      by (auto simp: requeued_is_next_Cons [of e "es @ ys"])
  qed
qed

lemma iteration_shape:
  assumes "worker_iteration env fuel n st = (u, st1)"
  shows "\<exists>new. trace st1 = trace st @ new \<and> requeued_is_next new \<and>
     first_dequeues new @ fresh_of (queue st1) = fresh_of (queue st) \<and>
     (\<forall>m r rest. queue st = (m, r) # rest \<longrightarrow> new \<noteq> [] \<and> hd new = Dequeued m r) \<and>
     (\<forall>m r. new \<noteq> [] \<and> last new = Requeued m r \<longrightarrow> (\<exists>rest. queue st1 = (m, r) # rest))"
  using assms
  by (auto simp: worker_iteration_def deliver_def Let_def emit_def insert_front_def
      split: list.splits sum.splits outcome.splits if_splits prod.splits)

text \<open>
  C6. In every run of the worker, from any queue and with any arrivals: the item at the
  head of the queue is the first one dequeued; an item that is requeued after a failure is
  at the head of the queue and is the very next item dequeued, before every other item
  present; and the messages dequeued for the first time, followed by the fresh ones still
  waiting, are the fresh ones that were waiting followed by the arrivals, in the same
  order.
\<close>

theorem retry_priority_and_fifo:
  assumes "msg_worker env fuel n rounds st = (u, st')"
  shows "\<exists>new. trace st' = trace st @ new \<and> requeued_is_next new \<and>
     first_dequeues new @ fresh_of (queue st') = fresh_of (queue st) @ concat rounds \<and>
     (\<forall>m r rest. queue st = (m, r) # rest \<and> rounds \<noteq> [] \<longrightarrow> new \<noteq> [] \<and> hd new = Dequeued m r) \<and>
     (\<forall>m r. new \<noteq> [] \<and> last new = Requeued m r \<longrightarrow> (\<exists>rest. queue st' = (m, r) # rest))"
  using assms
proof (induction rounds arbitrary: st)
  case Nil
  then show ?case by auto
next
  case (Cons ms rounds)
  let ?a = "arrive ms st"
  obtain u1 st1 where it: "worker_iteration env fuel n ?a = (u1, st1)"
    by (cases "worker_iteration env fuel n ?a") auto
  from iteration_shape [OF it] obtain new1 where
    t1: "trace st1 = trace st @ new1" and ok1: "requeued_is_next new1"
    and f1: "first_dequeues new1 @ fresh_of (queue st1) = fresh_of (queue st) @ ms"
    and h1: "\<And>m r rest. queue st = (m, r) # rest \<Longrightarrow> new1 \<noteq> [] \<and> hd new1 = Dequeued m r"
    and l1: "\<And>m r. new1 \<noteq> [] \<Longrightarrow> last new1 = Requeued m r \<Longrightarrow> \<exists>rest. queue st1 = (m, r) # rest"
    by (auto simp: arrive_simps fresh_of_append fresh_of_fresh)
  show ?case
  proof (cases "u1 = Returns () \<or> u1 = Blocks")
    case True
    with Cons.prems it have run: "msg_worker env fuel n rounds st1 = (u, st')"
      by auto
    from Cons.IH [OF run] obtain new2 where
      t2: "trace st' = trace st1 @ new2" and ok2: "requeued_is_next new2"
      and f2: "first_dequeues new2 @ fresh_of (queue st') = fresh_of (queue st1) @ concat rounds"
      and h2: "\<And>m r rest. queue st1 = (m, r) # rest \<Longrightarrow> rounds \<noteq> [] \<Longrightarrow> new2 \<noteq> [] \<and> hd new2 = Dequeued m r"
      and l2: "\<And>m r. new2 \<noteq> [] \<Longrightarrow> last new2 = Requeued m r \<Longrightarrow> \<exists>rest. queue st' = (m, r) # rest"
      by auto
    have empty2: "new2 = [] \<Longrightarrow> rounds \<noteq> [] \<Longrightarrow> queue st1 = []"
      using h2 by (cases "queue st1") auto
    have ok: "requeued_is_next (new1 @ new2)"
      using ok1 ok2
    proof (rule requeued_is_next_append)
      fix m r assume a: "new1 \<noteq> []" "last new1 = Requeued m r" "new2 \<noteq> []"
      from l1 [OF a(1,2)] obtain rest where q: "queue st1 = (m, r) # rest" by blast
      have "rounds \<noteq> []"
      proof
        assume "rounds = []"
        with run t2 a(3) show False by simp
      qed
      with h2 [OF q] show "hd new2 = Dequeued m r" by simp
    qed
    have f: "first_dequeues (new1 @ new2) @ fresh_of (queue st') = fresh_of (queue st) @ concat (ms # rounds)"
      using f1 f2 by (simp add: first_dequeues_append)
    have h: "\<forall>m r rest. queue st = (m, r) # rest \<and> ms # rounds \<noteq> [] \<longrightarrow>
               new1 @ new2 \<noteq> [] \<and> hd (new1 @ new2) = Dequeued m r"
      using h1 by fastforce
    have l: "\<forall>m r. new1 @ new2 \<noteq> [] \<and> last (new1 @ new2) = Requeued m r \<longrightarrow>
               (\<exists>rest. queue st' = (m, r) # rest)"
    proof (intro allI impI)
      fix m r assume a: "new1 @ new2 \<noteq> [] \<and> last (new1 @ new2) = Requeued m r"
      show "\<exists>rest. queue st' = (m, r) # rest"
      proof (cases "new2 = []")
        case False
        with a l2 show ?thesis by simp
      next
        case True
        with a have n1: "new1 \<noteq> []" "last new1 = Requeued m r" by simp_all
        from l1 [OF n1] obtain rest where q: "queue st1 = (m, r) # rest" by blast
        have "rounds = []"
          using empty2 [OF True] q by auto
        with run have "st' = st1" by simp
        with q show ?thesis by simp
      qed
    qed
    from t1 t2 ok f h l show ?thesis
      by (intro exI [of _ "new1 @ new2"]) simp
  next
    case False
    with Cons.prems it have fin: "u = u1" "st' = arrive (concat rounds) st1"
      by (auto split: outcome.splits)
    have f: "first_dequeues new1 @ fresh_of (queue st') = fresh_of (queue st) @ concat (ms # rounds)"
      using f1 by (simp add: fin arrive_simps fresh_of_append fresh_of_fresh)
    have l: "\<forall>m r. new1 \<noteq> [] \<and> last new1 = Requeued m r \<longrightarrow> (\<exists>rest. queue st' = (m, r) # rest)"
      using l1 by (auto simp: fin arrive_simps)
    from t1 ok1 f h1 l show ?thesis
      by (intro exI [of _ new1]) (auto simp: fin arrive_simps)
  qed
qed

theorem retry_priority_and_fifo_witness:
  "msg_worker (stub_env 100 Refused) 5 1 [[], [], [''C''], [], []] (st0\<lparr>queue := [(''A'', 0), (''B'', 0)]\<rparr>) =
     (Returns (),
      \<lparr>queue = [(''C'', 1)],
       trace = [Dequeued ''A'' 0, Slept, Requeued ''A'' 1, Dequeued ''A'' 1, Dropped ''A'', TaskDone,
                Dequeued ''B'' 0, Slept, Requeued ''B'' 1, Dequeued ''B'' 1, Dropped ''B'', TaskDone,
                Dequeued ''C'' 0, Slept, Requeued ''C'' 1],
       calls = 5, deliveries = 0\<rparr>) \<and>
   (\<exists>new.
     trace \<lparr>queue = [(''C'', 1)],
       trace = [Dequeued ''A'' 0, Slept, Requeued ''A'' 1, Dequeued ''A'' 1, Dropped ''A'', TaskDone,
                Dequeued ''B'' 0, Slept, Requeued ''B'' 1, Dequeued ''B'' 1, Dropped ''B'', TaskDone,
                Dequeued ''C'' 0, Slept, Requeued ''C'' 1],
       calls = 5, deliveries = 0\<rparr>
       = trace (st0\<lparr>queue := [(''A'', 0), (''B'', 0)]\<rparr>) @ new \<and>
     requeued_is_next new \<and>
     first_dequeues new @
       fresh_of (queue \<lparr>queue = [(''C'', 1)],
       trace = [Dequeued ''A'' 0, Slept, Requeued ''A'' 1, Dequeued ''A'' 1, Dropped ''A'', TaskDone,
                Dequeued ''B'' 0, Slept, Requeued ''B'' 1, Dequeued ''B'' 1, Dropped ''B'', TaskDone,
                Dequeued ''C'' 0, Slept, Requeued ''C'' 1],
       calls = 5, deliveries = 0\<rparr>)
       = fresh_of (queue (st0\<lparr>queue := [(''A'', 0), (''B'', 0)]\<rparr>)) @ concat [[], [], [''C''], [], []] \<and>
     (\<forall>m r rest. queue (st0\<lparr>queue := [(''A'', 0), (''B'', 0)]\<rparr>) = (m, r) # rest \<and>
          [[], [], [''C''], [], []] \<noteq> ([] :: str list list)
        \<longrightarrow> new \<noteq> [] \<and> hd new = Dequeued m r) \<and>
     (\<forall>m r. new \<noteq> [] \<and> last new = Requeued m r \<longrightarrow>
        (\<exists>rest. queue \<lparr>queue = [(''C'', 1)],
       trace = [Dequeued ''A'' 0, Slept, Requeued ''A'' 1, Dequeued ''A'' 1, Dropped ''A'', TaskDone,
                Dequeued ''B'' 0, Slept, Requeued ''B'' 1, Dequeued ''B'' 1, Dropped ''B'', TaskDone,
                Dequeued ''C'' 0, Slept, Requeued ''C'' 1],
       calls = 5, deliveries = 0\<rparr> = (m, r) # rest)))"
proof (rule conjI)
  show run: "msg_worker (stub_env 100 Refused) 5 1 [[], [], [''C''], [], []] (st0\<lparr>queue := [(''A'', 0), (''B'', 0)]\<rparr>) =
     (Returns (),
      \<lparr>queue = [(''C'', 1)],
       trace = [Dequeued ''A'' 0, Slept, Requeued ''A'' 1, Dequeued ''A'' 1, Dropped ''A'', TaskDone,
                Dequeued ''B'' 0, Slept, Requeued ''B'' 1, Dequeued ''B'' 1, Dropped ''B'', TaskDone,
                Dequeued ''C'' 0, Slept, Requeued ''C'' 1],
       calls = 5, deliveries = 0\<rparr>)"
    by code_simp
  show "\<exists>new.
     trace \<lparr>queue = [(''C'', 1)],
       trace = [Dequeued ''A'' 0, Slept, Requeued ''A'' 1, Dequeued ''A'' 1, Dropped ''A'', TaskDone,
                Dequeued ''B'' 0, Slept, Requeued ''B'' 1, Dequeued ''B'' 1, Dropped ''B'', TaskDone,
                Dequeued ''C'' 0, Slept, Requeued ''C'' 1],
       calls = 5, deliveries = 0\<rparr>
       = trace (st0\<lparr>queue := [(''A'', 0), (''B'', 0)]\<rparr>) @ new \<and>
     requeued_is_next new \<and>
     first_dequeues new @
       fresh_of (queue \<lparr>queue = [(''C'', 1)],
       trace = [Dequeued ''A'' 0, Slept, Requeued ''A'' 1, Dequeued ''A'' 1, Dropped ''A'', TaskDone,
                Dequeued ''B'' 0, Slept, Requeued ''B'' 1, Dequeued ''B'' 1, Dropped ''B'', TaskDone,
                Dequeued ''C'' 0, Slept, Requeued ''C'' 1],
       calls = 5, deliveries = 0\<rparr>)
       = fresh_of (queue (st0\<lparr>queue := [(''A'', 0), (''B'', 0)]\<rparr>)) @ concat [[], [], [''C''], [], []] \<and>
     (\<forall>m r rest. queue (st0\<lparr>queue := [(''A'', 0), (''B'', 0)]\<rparr>) = (m, r) # rest \<and>
          [[], [], [''C''], [], []] \<noteq> ([] :: str list list)
        \<longrightarrow> new \<noteq> [] \<and> hd new = Dequeued m r) \<and>
     (\<forall>m r. new \<noteq> [] \<and> last new = Requeued m r \<longrightarrow>
        (\<exists>rest. queue \<lparr>queue = [(''C'', 1)],
       trace = [Dequeued ''A'' 0, Slept, Requeued ''A'' 1, Dequeued ''A'' 1, Dropped ''A'', TaskDone,
                Dequeued ''B'' 0, Slept, Requeued ''B'' 1, Dequeued ''B'' 1, Dropped ''B'', TaskDone,
                Dequeued ''C'' 0, Slept, Requeued ''C'' 1],
       calls = 5, deliveries = 0\<rparr> = (m, r) # rest))"
    by (rule retry_priority_and_fifo [OF run])
qed

section \<open>The single lane\<close>

lemma count_update:
  "i < length ts \<Longrightarrow>
   length (filter P (ts[i := t])) + (if P (ts ! i) then 1 else 0) =
   length (filter P ts) + (if P t then 1 else 0)"
proof (induction ts arbitrary: i)
  case Nil
  then show ?case by simp
next
  case (Cons a ts)
  show ?case
  proof (cases i)
    case 0
    then show ?thesis by simp
  next
    case (Suc j)
    with Cons.prems have "j < length ts" by simp
    from Cons.IH [OF this] Suc show ?thesis by simp
  qed
qed

lemma in_inference_is_worker: "in_inference t \<Longrightarrow> is_worker t"
  by (cases t rule: in_inference.cases) auto

lemma in_flight_le_workers: "in_flight s \<le> length (filter is_worker (threads s))"
proof -
  have "filter in_inference (threads s) = filter in_inference (filter is_worker (threads s))"
    by (auto simp: in_inference_is_worker intro: filter_cong)
  then show ?thesis unfolding in_flight_def
    by (metis length_filter_le)
qed

lemma workers_update:
  assumes "i < length ts" and "is_worker t \<Longrightarrow> is_worker (ts ! i)"
  shows "length (filter is_worker (ts[i := t])) \<le> length (filter is_worker ts)"
  using count_update [OF assms(1), of is_worker t] assms(2)
  by (auto split: if_splits)

lemma step_workers:
  assumes "step n s s'"
  shows "length (filter is_worker (threads s')) \<le> length (filter is_worker (threads s))"
  using assms by cases (auto intro!: workers_update)

text \<open>A state in which the worker is inside the callback is reached.\<close>

lemma callback_is_reached:
  "reaches nmax main \<lparr>threads = [MsgWorker (InInference (''A'', 0)), CleanupWorker, Listener], shared_queue = []\<rparr>"
proof -
  have 1: "reaches nmax main (main\<lparr>shared_queue := shared_queue main @ [(''A'', 0)]\<rparr>)"
    by (rule after [OF start], rule put_fresh [of 2]) (simp_all add: main_def)
  have 2: "reaches nmax main \<lparr>threads = [MsgWorker (AtExtract (''A'', 0)), CleanupWorker, Listener], shared_queue = []\<rparr>"
    using after [OF 1 get_item [of 0 _ "(''A'', 0)" "[]"]] by (simp add: main_def)
  show ?thesis
    using after [OF 2 extract_returns [of 0 _ "(''A'', 0)"]] by simp
qed

text \<open>
  C9. In every state that the threads started by \<open>main\<close> can reach, in any interleaving and
  whatever the collaborators do, at most one thread is inside the processing callback
  \<open>run_inference\<close>: no two invocations overlap.
\<close>

theorem single_lane:
  assumes "reaches nmax main s"
  shows "in_flight s \<le> 1"
proof -
  from assms have "length (filter is_worker (threads s)) \<le> 1"
  proof induction
    case start
    show ?case by (simp add: main_def)
  next
    case (after s s')
    from step_workers [OF after.hyps(2)] after.IH show ?case by simp
  qed
  with in_flight_le_workers [of s] show ?thesis by simp
qed

theorem single_lane_witness:
  "in_flight \<lparr>threads = [MsgWorker (InInference (''A'', 0)), CleanupWorker, Listener], shared_queue = []\<rparr> \<le> 1"
  using single_lane [OF callback_is_reached] .

text \<open>
  The bound rests on \<open>main\<close> starting one worker thread: with two threads running
  \<open>msg_worker\<close> on the same queue, two invocations do overlap.
\<close>

lemma two_workers_overlap:
  "\<exists>s. reaches n \<lparr>threads = [MsgWorker AtGet, MsgWorker AtGet, Listener], shared_queue = []\<rparr> s \<and> in_flight s = 2"
proof -
  let ?i = "\<lparr>threads = [MsgWorker AtGet, MsgWorker AtGet, Listener], shared_queue = []\<rparr>"
  have 1: "reaches n ?i \<lparr>threads = [MsgWorker AtGet, MsgWorker AtGet, Listener], shared_queue = [(''A'', 0)]\<rparr>"
    using after [OF start put_fresh [of 2 ?i n "''A''"]] by simp
  have 2: "reaches n ?i \<lparr>threads = [MsgWorker AtGet, MsgWorker AtGet, Listener], shared_queue = [(''A'', 0), (''B'', 0)]\<rparr>"
    using after [OF 1 put_fresh [of 2 _ n "''B''"]] by simp
  have 3: "reaches n ?i \<lparr>threads = [MsgWorker (AtExtract (''A'', 0)), MsgWorker AtGet, Listener], shared_queue = [(''B'', 0)]\<rparr>"
    using after [OF 2 get_item [of 0 _ "(''A'', 0)" "[(''B'', 0)]"]] by simp
  have 4: "reaches n ?i \<lparr>threads = [MsgWorker (AtExtract (''A'', 0)), MsgWorker (AtExtract (''B'', 0)), Listener], shared_queue = []\<rparr>"
    using after [OF 3 get_item [of 1 _ "(''B'', 0)" "[]"]] by simp
  have 5: "reaches n ?i \<lparr>threads = [MsgWorker (InInference (''A'', 0)), MsgWorker (AtExtract (''B'', 0)), Listener], shared_queue = []\<rparr>"
    using after [OF 4 extract_returns [of 0 _ "(''A'', 0)"]] by simp
  have 6: "reaches n ?i \<lparr>threads = [MsgWorker (InInference (''A'', 0)), MsgWorker (InInference (''B'', 0)), Listener], shared_queue = []\<rparr>"
    using after [OF 5 extract_returns [of 1 _ "(''B'', 0)"]] by simp
  show ?thesis
    by (rule exI, rule conjI, rule 6) (simp add: in_flight_def)
qed


end
